theory Spec2Isabelle
  imports Complex_Main "HOL-Library.Log_Nat" "HOL-Library.Multiset"
begin

section \<open>Data model (src/types.ts)\<close>

text \<open>
  Instants are milliseconds since the epoch, as \<open>Date.now()\<close> returns them; they are
  integers far below \<open>2^53\<close>, which a double holds exactly, and are modelled as \<open>int\<close>.
  An optional field (\<open>f?: number\<close>) is an \<open>option\<close>.
  \<open>reviewCount\<close> counts completed reviews (the code only ever writes \<open>0\<close>, \<open>1\<close> and
  \<open>n + 1\<close> to it) and is a \<open>nat\<close>. The field \<open>id\<close> of the source is called \<open>id'\<close>,
  since \<open>id\<close> is the identity function of HOL.
\<close>

record bilingual =
  en :: string
  zh :: string

record WordDetail =
  word :: string
  phonetic :: string
  definitions :: "bilingual list"
  examples :: "bilingual list"

record VocabularyWord = WordDetail +
  addedAt :: int
  lastPracticedAt :: "int option"

record UserGoals =
  dailyNewWords :: int
  dailyReviews :: int

record LearningSession =
  id' :: string
  originalImage :: "string option"
  extractedText :: string
  words :: "WordDetail list"
  userTranslation :: string
  aiTranslation :: string
  aiComparison :: string
  createdAt :: int
  nextReviewAt :: int
  reviewCount :: nat
  lastNotifiedAt :: "int option"
  lastReviewedAt :: "int option"

definition EBBINGHAUS_INTERVALS :: "int list" where
  "EBBINGHAUS_INTERVALS = [1, 2, 4, 7, 15, 30]"

section \<open>Completing a review (src/App.tsx, handleFinishLearning)\<close>

text \<open>
  \<open>x || 0\<close> on a count: a falsy count (zero) is replaced by zero.
\<close>

definition or0 :: "nat \<Rightarrow> nat" where
  "or0 x = (if x = 0 then 0 else x)"

text \<open>
  The two local constants of the branch for an existing record, as functions of
  \<open>existing.reviewCount\<close>. The index is at most the last index of the table, so the
  read is always in range.
\<close>

definition nextIntervalIndex :: "nat \<Rightarrow> nat" where
  "nextIntervalIndex rc = min (or0 rc + 1) (length EBBINGHAUS_INTERVALS - 1)"

definition daysToAdd :: "nat \<Rightarrow> int" where
  "daysToAdd rc = EBBINGHAUS_INTERVALS ! nextIntervalIndex rc"

definition firstIntervalDays :: int where
  "firstIntervalDays = EBBINGHAUS_INTERVALS ! 0"

text \<open>
  \<open>handleFinishLearning\<close> is the state update \<open>setSessions(prev => ...)\<close>: it takes the
  stored list \<open>prev\<close>, the current session and the reading of the clock, and returns the
  new list. \<open>currentSession\<close> is a \<open>Partial<LearningSession>\<close> that the code casts to
  \<open>LearningSession\<close>; it is taken at that type, and the guard \<open>!currentSession.id\<close> is
  the test for the empty string. All readings of \<open>Date.now()\<close> in one call are the one
  instant \<open>now\<close>.
\<close>

definition handleFinishLearning ::
  "LearningSession list \<Rightarrow> LearningSession \<Rightarrow> int \<Rightarrow> LearningSession list" where
  "handleFinishLearning prev currentSession now =
     (if id' currentSession = [] then prev
      else case find (\<lambda>s. id' s = id' currentSession) prev of
        Some existing \<Rightarrow>
          map (\<lambda>s. if id' s = id' currentSession
                    then s\<lparr>reviewCount := or0 (reviewCount s) + 1,
                           nextReviewAt := now + daysToAdd (reviewCount existing) * 24 * 60 * 60 * 1000,
                           lastNotifiedAt := Some 0,
                           lastReviewedAt := Some now\<rparr>
                    else s) prev
      | None \<Rightarrow>
          currentSession\<lparr>reviewCount := 1,
                          nextReviewAt := now + firstIntervalDays * 24 * 60 * 60 * 1000,
                          lastReviewedAt := Some now\<rparr> # prev)"

section \<open>Creating a session (handleManualSubmit, processImageBase64)\<close>

text \<open>
  \<open>Date.now().toString()\<close>: the decimal digits of the instant, with a minus sign for a
  negative one.
\<close>

definition digit :: "nat \<Rightarrow> char" where
  "digit d = char_of (48 + d)"

function digits :: "nat \<Rightarrow> string" where
  "digits n = (if n < 10 then [digit n] else digits (n div 10) @ [digit (n mod 10)])"
  by pat_completeness auto
termination
  by (relation "measure (\<lambda>n. n)") auto

declare digits.simps [simp del]

definition toString :: "int \<Rightarrow> string" where
  "toString t = (if t < 0 then CHR ''-'' # digits (nat (- t)) else digits (nat t))"

text \<open>
  The object that both \<open>handleManualSubmit\<close> and \<open>processImageBase64\<close> store as the
  current session. The fields that the object literal leaves out are absent
  (\<open>None\<close>, or the empty string for the translations, which are set before the session
  can be finished).
\<close>

definition newSession :: "string \<Rightarrow> int \<Rightarrow> LearningSession" where
  "newSession text now =
     \<lparr>id' = toString now, originalImage = None, extractedText = text, words = [],
      userTranslation = [], aiTranslation = [], aiComparison = [],
      createdAt = now, nextReviewAt = now + 86400000, reviewCount = 0,
      lastNotifiedAt = None, lastReviewedAt = None\<rparr>"

section \<open>Detecting due sessions and notifying (checkReviews)\<close>

text \<open>
  \<open>!x\<close> on an optional number: absent and zero are falsy.
\<close>

definition falsy :: "int option \<Rightarrow> bool" where
  "falsy x = (case x of None \<Rightarrow> True | Some n \<Rightarrow> n = 0)"

text \<open>
  The arrow function that \<open>checkReviews\<close> passes to \<open>filter\<close>. The comparison with
  \<open>lastNotifiedAt\<close> is only reached when the field is truthy, hence present.
\<close>

definition isNewlyDue :: "int \<Rightarrow> LearningSession \<Rightarrow> bool" where
  "isNewlyDue now s =
     (nextReviewAt s \<le> now \<and>
      (falsy (lastNotifiedAt s) \<or>
       (case lastNotifiedAt s of Some t \<Rightarrow> t < nextReviewAt s | None \<Rightarrow> False)))"

definition dueSessions :: "LearningSession list \<Rightarrow> int \<Rightarrow> LearningSession list" where
  "dueSessions sessions now = filter (isNewlyDue now) sessions"

datatype NotificationPermission = granted | denied | default_permission

text \<open>
  What the issued notification carries: the number of due items shown in its body and
  the session its click handler opens.
\<close>

record Notification =
  body :: nat
  firstSession :: LearningSession

text \<open>
  One run of \<open>checkReviews\<close>: the notification issued, if any, and the list of sessions
  after \<open>setSessions\<close>.
\<close>

definition checkReviews ::
  "NotificationPermission \<Rightarrow> LearningSession list \<Rightarrow> int
     \<Rightarrow> Notification option \<times> LearningSession list" where
  "checkReviews permission sessions now =
     (if permission \<noteq> granted then (None, sessions)
      else let due = dueSessions sessions now in
        if length due > 0
        then (Some \<lparr>body = length due, firstSession = hd due\<rparr>,
              map (\<lambda>s. if list_ex (\<lambda>ds. id' ds = id' s) due
                        then s\<lparr>lastNotifiedAt := Some now\<rparr> else s) sessions)
        else (None, sessions))"

text \<open>
  The operation \<open>newlyDue\<close> as section 4.3 of the specification words it: the records
  with \<open>nextReviewAt \<le> now\<close> and (\<open>lastNotifiedAt\<close> absent or zero, or
  \<open>lastNotifiedAt < nextReviewAt\<close>).
\<close>

definition newlyDue_spec :: "LearningSession list \<Rightarrow> int \<Rightarrow> LearningSession list" where
  "newlyDue_spec allRecords now =
     filter (\<lambda>s. nextReviewAt s \<le> now \<and>
                 (lastNotifiedAt s = None \<or> lastNotifiedAt s = Some 0 \<or>
                  (\<exists>t. lastNotifiedAt s = Some t \<and> t < nextReviewAt s))) allRecords"

section \<open>The review schedule listing (REVIEW_CENTER)\<close>

text \<open>
  \<open>sessions.sort((a,b) => a.nextReviewAt - b.nextReviewAt)\<close> sorts the array that the
  state variable \<open>sessions\<close> refers to, in place, and returns that same array. The sort
  of JavaScript is stable, so the result is the stable ascending sort by
  \<open>nextReviewAt\<close>. \<open>renderReviewCenter\<close> returns the rows that are listed and the array
  that \<open>sessions\<close> refers to afterwards; with an empty list the sort is not reached.
\<close>

definition renderReviewCenter ::
  "LearningSession list \<Rightarrow> LearningSession list \<times> LearningSession list" where
  "renderReviewCenter sessions =
     (if length sessions = 0 then ([], sessions)
      else let sorted = sort_key nextReviewAt sessions in (sorted, sorted))"

section \<open>Daily progress (dailyProgress)\<close>

text \<open>
  \<open>new Date().setHours(0, 0, 0, 0)\<close> is the local midnight of the day of the instant
  at which it is evaluated. The platform computes it from the rules of the local time
  zone, which are not part of the repository: it is a parameter, the function
  \<open>localMidnight\<close> from an instant to the local midnight of its day.
\<close>

record DailyProgress =
  newWords :: nat
  reviews :: nat

text \<open>
  The function that \<open>useMemo\<close> is given: the counts at the instant \<open>now\<close> at which it is
  called.
\<close>

definition dailyProgress_compute ::
  "(int \<Rightarrow> int) \<Rightarrow> VocabularyWord list \<Rightarrow> LearningSession list \<Rightarrow> int \<Rightarrow> DailyProgress" where
  "dailyProgress_compute localMidnight vocabulary sessions now =
     (let startOfDay = localMidnight now;
          newWordsCount = length (filter (\<lambda>v. addedAt v \<ge> startOfDay) vocabulary);
          reviewsCount = length (filter (\<lambda>s. \<not> falsy (lastReviewedAt s) \<and>
                            (case lastReviewedAt s of Some t \<Rightarrow> t \<ge> startOfDay | None \<Rightarrow> False))
                          sessions)
      in \<lparr>newWords = newWordsCount, reviews = reviewsCount\<rparr>)"

text \<open>
  \<open>dailyProgress\<close> is \<open>useMemo(..., [vocabulary, sessions])\<close>: React keeps the value
  together with the two arrays it was computed from and, at a later rendering, calls the
  function again only if one of the two is another array (compared by identity, not by
  content). Each array is therefore passed with its reference, a number that differs
  for arrays that \<open>setVocabulary\<close> or \<open>setSessions\<close> stored at different times. The
  result is the cell that React keeps; \<open>memoValue\<close> is the value of \<open>dailyProgress\<close> at
  this rendering.
\<close>

record MemoCell =
  memoValue :: DailyProgress
  memoDeps :: "nat \<times> nat"

definition dailyProgress ::
  "(int \<Rightarrow> int) \<Rightarrow> MemoCell option \<Rightarrow> nat \<Rightarrow> VocabularyWord list \<Rightarrow> nat \<Rightarrow> LearningSession list
     \<Rightarrow> int \<Rightarrow> MemoCell" where
  "dailyProgress localMidnight cell vocabularyRef vocabulary sessionsRef sessions now =
     (case cell of
        Some c \<Rightarrow>
          if memoDeps c = (vocabularyRef, sessionsRef) then c
          else \<lparr>memoValue = dailyProgress_compute localMidnight vocabulary sessions now,
                memoDeps = (vocabularyRef, sessionsRef)\<rparr>
      | None \<Rightarrow>
          \<lparr>memoValue = dailyProgress_compute localMidnight vocabulary sessions now,
           memoDeps = (vocabularyRef, sessionsRef)\<rparr>)"


section \<open>The progress bar (ProgressBar)\<close>

text \<open>
  \<open>ProgressBar\<close> divides, so its numbers are modelled as the doubles of JavaScript: a
  finite value, an infinity or NaN (the two zeros are not distinguished: both print as
  \<open>0\<close>). \<open>fl\<close> rounds a rational to the nearest double, ties to the even significand
  of 53 bits; \<open>exponent x\<close> is the integer \<open>e\<close> with \<open>2^e \<le> |x| < 2^(e+1)\<close>. Counts and
  goals are integers below \<open>2^53\<close>, so that quotient and product stay in the range of
  normal doubles and neither overflow nor gradual underflow occurs.
\<close>

datatype number = Fin rat | PosInf | NegInf | NaN

definition exponent :: "rat \<Rightarrow> int" where
  "exponent x =
     (let (p, q) = quotient_of \<bar>x\<bar>; d = bitlen p - bitlen q
      in if 2 powi d \<le> \<bar>x\<bar> then d else d - 1)"

definition roundEven :: "rat \<Rightarrow> int" where
  "roundEven q =
     (let n = \<lfloor>q\<rfloor>; r = q - of_int n
      in if r < 1 / 2 then n else if 1 / 2 < r then n + 1 else if even n then n else n + 1)"

definition fl :: "rat \<Rightarrow> rat" where
  "fl x = (if x = 0 then 0
           else let ulp = 2 powi (exponent x - 52) in of_int (roundEven (x / ulp)) * ulp)"

text \<open>\<open>a / b\<close> on two integers.\<close>

definition divide_num :: "int \<Rightarrow> int \<Rightarrow> number" where
  "divide_num a b =
     (if b = 0 then (if a = 0 then NaN else if 0 < a then PosInf else NegInf)
      else Fin (fl (of_int a / of_int b)))"

text \<open>\<open>x * 100\<close>.\<close>

fun times100 :: "number \<Rightarrow> number" where
  "times100 (Fin x) = Fin (fl (x * 100))"
| "times100 PosInf = PosInf"
| "times100 NegInf = NegInf"
| "times100 NaN = NaN"

text \<open>\<open>Math.round\<close>: the nearest integer, a half going up.\<close>

fun Math_round :: "number \<Rightarrow> number" where
  "Math_round (Fin x) = Fin (of_int \<lfloor>x + 1 / 2\<rfloor>)"
| "Math_round PosInf = PosInf"
| "Math_round NegInf = NegInf"
| "Math_round NaN = NaN"

text \<open>\<open>Math.min(x, 100)\<close>: NaN if \<open>x\<close> is NaN.\<close>

fun Math_min100 :: "number \<Rightarrow> number" where
  "Math_min100 (Fin x) = Fin (min x 100)"
| "Math_min100 PosInf = Fin 100"
| "Math_min100 NegInf = NegInf"
| "Math_min100 NaN = NaN"

record Progress =
  percentage :: number
  isCompleted :: bool

definition ProgressBar :: "int \<Rightarrow> int \<Rightarrow> Progress" where
  "ProgressBar current goal =
     \<lparr>percentage = Math_min100 (Math_round (times100 (divide_num current goal))),
      isCompleted = (current \<ge> goal)\<rparr>"

text \<open>
  The percentage of section 4.5 of the specification, in exact arithmetic:
  \<open>min(round(100 * current / goal), 100)\<close>, where \<open>round\<close> takes a half up, as
  \<open>Math.round\<close> does.
\<close>

definition percent_spec :: "int \<Rightarrow> int \<Rightarrow> int" where
  "percent_spec current goal = min \<lfloor>(100 * of_int current / of_int goal :: rat) + 1 / 2\<rfloor> 100"

section \<open>The session lifecycle of the application\<close>

text \<open>
  The state that the operations above share: the stored sessions, the current session,
  the session that the click handler of the displayed notification holds (the tag
  \<open>linguist-review\<close> makes a new notification replace the previous one), and the
  latest reading of the clock. \<open>emptySession\<close> stands for the object \<open>{}\<close>, whose \<open>id\<close>
  is falsy.
\<close>

record App =
  sessions :: "LearningSession list"
  currentSession :: LearningSession
  notification :: "Notification option"
  clock :: int

definition emptySession :: LearningSession where
  "emptySession =
     \<lparr>id' = [], originalImage = None, extractedText = [], words = [],
      userTranslation = [], aiTranslation = [], aiComparison = [],
      createdAt = 0, nextReviewAt = 0, reviewCount = 0,
      lastNotifiedAt = None, lastReviewedAt = None\<rparr>"

definition initialApp :: "int \<Rightarrow> App" where
  "initialApp t = \<lparr>sessions = [], currentSession = emptySession, notification = None, clock = t\<rparr>"

text \<open>
  The click handler of the button that submits the translation: the current session
  with the three texts set and \<open>createdAt: currentSession.createdAt || Date.now()\<close>.
\<close>

definition submitTranslation ::
  "LearningSession \<Rightarrow> string \<Rightarrow> string \<Rightarrow> string \<Rightarrow> int \<Rightarrow> LearningSession" where
  "submitTranslation cur userInput ai comparison now =
     cur\<lparr>userTranslation := userInput, aiTranslation := ai, aiComparison := comparison,
         createdAt := (if createdAt cur = 0 then now else createdAt cur)\<rparr>"

text \<open>
  The events that touch a session: a capture (\<open>handleManualSubmit\<close>,
  \<open>processImageBase64\<close>), the submission of a translation, the opening of a stored
  session from a list, the click on the notification, \<open>handleFinishLearning\<close>,
  \<open>checkReviews\<close>, the rendering of the review schedule, and a reload of the page, which
  reads the stored sessions back and starts with the current session \<open>{}\<close>. An event
  that reads the clock carries the reading, which is not earlier than the previous one.
  The stage of the user interface is not part of the state: every event is taken as
  possible at any moment, which only adds states to those the application can reach.
  In the same way a capture is not refused on blank text, which \<open>handleManualSubmit\<close>
  refuses, and the reload keeps the list as it is in memory, where the page reads back
  the list last written to storage, which holds the same records and may hold them in
  the order they had before the review schedule was rendered.
\<close>

datatype event =
    Capture string int
  | SubmitTranslation string string string int
  | OpenSession nat
  | ClickNotification
  | FinishLearning int
  | CheckReviews NotificationPermission int
  | RenderReviewCenter
  | Reload

fun step :: "App \<Rightarrow> event \<Rightarrow> App option" where
  "step st (Capture text now) =
     (if clock st \<le> now
      then Some (st\<lparr>currentSession := newSession text now, clock := now\<rparr>) else None)"
| "step st (SubmitTranslation userInput ai comparison now) =
     (if clock st \<le> now
      then Some (st\<lparr>currentSession :=
                        submitTranslation (currentSession st) userInput ai comparison now,
                      clock := now\<rparr>)
      else None)"
| "step st (OpenSession i) =
     (if i < length (sessions st) then Some (st\<lparr>currentSession := sessions st ! i\<rparr>) else None)"
| "step st ClickNotification =
     (case notification st of
        None \<Rightarrow> None
      | Some n \<Rightarrow> Some (st\<lparr>currentSession := firstSession n, notification := None\<rparr>))"
| "step st (FinishLearning now) =
     (if clock st \<le> now
      then if id' (currentSession st) = [] then Some st
           else Some (st\<lparr>sessions := handleFinishLearning (sessions st) (currentSession st) now,
                           currentSession := emptySession, clock := now\<rparr>)
      else None)"
| "step st (CheckReviews permission now) =
     (if clock st \<le> now
      then let (n, ss) = checkReviews permission (sessions st) now
           in Some (st\<lparr>sessions := ss,
                         notification := (case n of None \<Rightarrow> notification st | Some x \<Rightarrow> Some x),
                         clock := now\<rparr>)
      else None)"
| "step st RenderReviewCenter = Some (st\<lparr>sessions := snd (renderReviewCenter (sessions st))\<rparr>)"
| "step st Reload = Some (st\<lparr>currentSession := emptySession, notification := None\<rparr>)"

fun run :: "App \<Rightarrow> event list \<Rightarrow> App option" where
  "run st [] = Some st"
| "run st (e # es) = (case step st e of None \<Rightarrow> None | Some st' \<Rightarrow> run st' es)"

text \<open>
  The last scheduling event of a record: its latest completed review, or its creation
  when it has not been reviewed.
\<close>

definition lastScheduled :: "LearningSession \<Rightarrow> int" where
  "lastScheduled s = (case lastReviewedAt s of Some t \<Rightarrow> t | None \<Rightarrow> createdAt s)"




text \<open>
  What holds of the sessions in every state that the events lead to. A stored record
  has been reviewed at least once and was scheduled at its latest review, no later than
  the interval of its next stage allows; a current session that is not yet stored is as
  \<open>newSession\<close> made it.
\<close>

definition scheduled :: "LearningSession \<Rightarrow> bool" where
  "scheduled s \<longleftrightarrow>
     1 \<le> reviewCount s
     \<and> (\<exists>t. lastReviewedAt s = Some t
            \<and> nextReviewAt s \<le> t + daysToAdd (reviewCount s) * 86400000)"

definition fresh :: "int \<Rightarrow> LearningSession \<Rightarrow> bool" where
  "fresh c s \<longleftrightarrow>
     lastReviewedAt s = None \<and> nextReviewAt s \<le> createdAt s + 86400000 \<and> createdAt s \<le> c"

definition invariant :: "App \<Rightarrow> bool" where
  "invariant st \<longleftrightarrow>
     distinct (map id' (sessions st))
     \<and> (\<forall>s\<in>set (sessions st). scheduled s)
     \<and> (id' (currentSession st) = [] \<or> id' (currentSession st) \<in> id' ` set (sessions st)
          \<or> fresh (clock st) (currentSession st))
     \<and> (\<forall>n. notification st = Some n \<longrightarrow> id' (firstSession n) \<in> id' ` set (sessions st))"

section \<open>Facts about the interval table and the completion of a review\<close>

lemma length_EBBINGHAUS_INTERVALS: "length EBBINGHAUS_INTERVALS = 6"
  by (simp add: EBBINGHAUS_INTERVALS_def)

lemma sorted_EBBINGHAUS_INTERVALS: "sorted EBBINGHAUS_INTERVALS"
  by (simp add: EBBINGHAUS_INTERVALS_def)

lemma or0_id: "or0 x = x"
  by (simp add: or0_def)

lemma nextIntervalIndex_eq: "nextIntervalIndex rc = min (rc + 1) 5"
  by (simp add: nextIntervalIndex_def or0_id length_EBBINGHAUS_INTERVALS)

lemma daysToAdd_plateau: "4 \<le> rc \<Longrightarrow> daysToAdd rc = 30"
  by (simp add: daysToAdd_def nextIntervalIndex_eq EBBINGHAUS_INTERVALS_def min_def)

lemma daysToAdd_mono: "a \<le> b \<Longrightarrow> daysToAdd a \<le> daysToAdd b"
  unfolding daysToAdd_def
  by (rule sorted_nth_mono [OF sorted_EBBINGHAUS_INTERVALS])
     (simp_all add: nextIntervalIndex_eq length_EBBINGHAUS_INTERVALS)

lemma daysToAdd_ge_1: "1 \<le> daysToAdd rc"
proof -
  have "nextIntervalIndex rc \<in> {1, 2, 3, 4, 5}"
    by (auto simp: nextIntervalIndex_eq min_def)
  then show ?thesis
    by (auto simp: daysToAdd_def EBBINGHAUS_INTERVALS_def)
qed

lemma handleFinishLearning_existing:
  assumes "id' cur \<noteq> []" "find (\<lambda>s. id' s = id' cur) prev = Some existing"
  shows "handleFinishLearning prev cur now =
     map (\<lambda>s. if id' s = id' cur
               then s\<lparr>reviewCount := reviewCount s + 1,
                      nextReviewAt := now + daysToAdd (reviewCount existing) * 86400000,
                      lastNotifiedAt := Some 0, lastReviewedAt := Some now\<rparr>
               else s) prev"
  using assms by (simp add: handleFinishLearning_def or0_id)

lemma handleFinishLearning_new:
  assumes "id' cur \<noteq> []" "find (\<lambda>s. id' s = id' cur) prev = None"
  shows "handleFinishLearning prev cur now =
     cur\<lparr>reviewCount := 1, nextReviewAt := now + 86400000, lastReviewedAt := Some now\<rparr> # prev"
  using assms by (simp add: handleFinishLearning_def firstIntervalDays_def EBBINGHAUS_INTERVALS_def)

lemma handleFinishLearning_ids:
  assumes "find (\<lambda>s. id' s = id' cur) prev \<noteq> None"
  shows "map id' (handleFinishLearning prev cur now) = map id' prev"
  using assms by (auto simp: handleFinishLearning_def split: option.splits)



lemma find_Some_index: "find P xs = Some x \<Longrightarrow> \<exists>i<length xs. P (xs ! i)"
  by (metis find_Some_iff)

lemma distinct_unique_index:
  assumes "distinct (map f xs)" "i < length xs" "j < length xs" "f (xs ! i) = f (xs ! j)"
  shows "i = j"
  using assms by (metis distinct_conv_nth length_map nth_map)

lemma find_unique:
  assumes "distinct (map f xs)" "find (\<lambda>s. f s = k) xs = Some e" "s \<in> set xs" "f s = k"
  shows "s = e"
proof -
  from assms(2) have "e \<in> set xs" "f e = k"
    by (auto simp: find_Some_iff)
  moreover from assms(1) have "inj_on f (set xs)"
    by (simp add: distinct_map)
  ultimately show ?thesis using assms(3,4) by (auto dest: inj_onD)
qed

lemma ball_map: "(\<And>s. s \<in> set xs \<Longrightarrow> P (f s)) \<Longrightarrow> \<forall>x\<in>set (map f xs). P x"
  by auto



lemma toString_1000: "toString 1000 = ''1000''"
  by code_simp

lemma toString_2000: "toString 2000 = ''2000''"
  by code_simp

section \<open>Facts about the detection of due sessions\<close>

lemma checkReviews_granted:
  "checkReviews granted ss now =
     (if dueSessions ss now = [] then (None, ss)
      else (Some \<lparr>body = length (dueSessions ss now), firstSession = hd (dueSessions ss now)\<rparr>,
            map (\<lambda>s. if list_ex (\<lambda>ds. id' ds = id' s) (dueSessions ss now)
                      then s\<lparr>lastNotifiedAt := Some now\<rparr> else s) ss))"
  by (simp add: checkReviews_def Let_def)

lemma notified_not_due:
  assumes "now \<noteq> 0" "now \<le> now'" "\<not> (now < nextReviewAt s \<and> nextReviewAt s \<le> now')"
  shows "\<not> isNewlyDue now' (s\<lparr>lastNotifiedAt := Some now\<rparr>)"
  using assms by (auto simp: isNewlyDue_def falsy_def)

lemma not_due_later:
  assumes "\<not> isNewlyDue now s" "now \<le> now'"
    "\<not> (now < nextReviewAt s \<and> nextReviewAt s \<le> now')"
  shows "\<not> isNewlyDue now' s"
  using assms by (auto simp: isNewlyDue_def falsy_def split: option.splits)

lemma second_check_empty:
  assumes "now \<noteq> 0" "now \<le> now'"
    and "\<forall>s\<in>set ss. \<not> (now < nextReviewAt s \<and> nextReviewAt s \<le> now')"
  shows "dueSessions (snd (checkReviews granted ss now)) now' = []"
proof (cases "dueSessions ss now = []")
  case True
  then have "\<forall>s\<in>set ss. \<not> isNewlyDue now s"
    by (simp add: dueSessions_def filter_empty_conv)
  with assms have "\<forall>s\<in>set ss. \<not> isNewlyDue now' s"
    using not_due_later by blast
  with True show ?thesis
    by (simp add: checkReviews_granted dueSessions_def filter_empty_conv)
next
  case False
  let ?due = "dueSessions ss now"
  let ?mark = "\<lambda>s. if list_ex (\<lambda>ds. id' ds = id' s) ?due then s\<lparr>lastNotifiedAt := Some now\<rparr> else s"
  have "\<not> isNewlyDue now' (?mark s)" if s: "s \<in> set ss" for s
  proof (cases "list_ex (\<lambda>ds. id' ds = id' s) ?due")
    case True
    with s assms notified_not_due show ?thesis by simp
  next
    case F: False
    then have "s \<notin> set ?due"
      by (auto simp: list_ex_iff)
    with s have "\<not> isNewlyDue now s"
      by (simp add: dueSessions_def)
    with s assms F not_due_later show ?thesis by simp
  qed
  then have "\<forall>x\<in>set (map ?mark ss). \<not> isNewlyDue now' x"
    by (rule ball_map)
  then have "filter (isNewlyDue now') (map ?mark ss) = []"
    by (simp only: filter_empty_conv)
  with False show ?thesis
    by (simp add: checkReviews_granted dueSessions_def [of _ now'])
qed

lemma first_check_marks:
  assumes "i < length ss" "ss ! i \<in> set (dueSessions ss now)"
  shows "lastNotifiedAt (snd (checkReviews granted ss now) ! i) = Some now"
proof -
  from assms(2) have ne: "dueSessions ss now \<noteq> []" by auto
  from assms(2) have "list_ex (\<lambda>ds. id' ds = id' (ss ! i)) (dueSessions ss now)"
    by (auto simp: list_ex_iff)
  with ne assms(1) show ?thesis
    by (simp add: checkReviews_granted)
qed

lemma checkReviews_map:
  "\<exists>g. snd (checkReviews p ss now) = map g ss
       \<and> (\<forall>s. g s = s \<or> g s = s\<lparr>lastNotifiedAt := Some now\<rparr>)"
proof (cases "p = granted \<and> dueSessions ss now \<noteq> []")
  case True
  then have "snd (checkReviews p ss now) =
     map (\<lambda>s. if list_ex (\<lambda>ds. id' ds = id' s) (dueSessions ss now)
               then s\<lparr>lastNotifiedAt := Some now\<rparr> else s) ss"
    by (simp add: checkReviews_def Let_def)
  then show ?thesis by (intro exI conjI) (assumption, simp)
next
  case False
  then have "snd (checkReviews p ss now) = map (\<lambda>s. s) ss"
    by (auto simp: checkReviews_def Let_def)
  then show ?thesis by (intro exI conjI) (assumption, simp)
qed

lemma checkReviews_ids: "map id' (snd (checkReviews p ss now)) = map id' ss"
proof -
  from checkReviews_map [of p ss now] obtain g where
    g: "snd (checkReviews p ss now) = map g ss"
       "\<forall>s. g s = s \<or> g s = s\<lparr>lastNotifiedAt := Some now\<rparr>"
    by blast
  have "id' (g s) = id' s" for s
    using g(2) [rule_format, of s] by auto
  with g(1) show ?thesis by simp
qed

lemma checkReviews_scheduled:
  assumes "\<forall>s\<in>set ss. scheduled s"
  shows "\<forall>s\<in>set (snd (checkReviews p ss now)). scheduled s"
proof -
  from checkReviews_map [of p ss now] obtain g where
    g: "snd (checkReviews p ss now) = map g ss"
       "\<forall>s. g s = s \<or> g s = s\<lparr>lastNotifiedAt := Some now\<rparr>"
    by blast
  have "scheduled (g s)" if "scheduled s" for s
    using g(2) [rule_format, of s] that by (auto simp: scheduled_def)
  with g(1) assms show ?thesis by simp
qed

lemma checkReviews_firstSession:
  assumes "fst (checkReviews p ss now) = Some n"
  shows "firstSession n \<in> set ss"
proof -
  from assms have ne: "dueSessions ss now \<noteq> []"
    and "n = \<lparr>body = length (dueSessions ss now), firstSession = hd (dueSessions ss now)\<rparr>"
    by (auto simp: checkReviews_def Let_def split: if_splits)
  then have "firstSession n \<in> set (dueSessions ss now)"
    by simp
  then show ?thesis by (simp add: dueSessions_def)
qed

lemma renderReviewCenter_eq: "snd (renderReviewCenter ss) = sort_key nextReviewAt ss"
  by (cases ss) (simp_all add: renderReviewCenter_def Let_def)

section \<open>Facts about the rounding of doubles\<close>

lemma bitlen_powi_bounds:
  assumes "0 < p"
  shows "(2::rat) powi (bitlen p - 1) \<le> of_int p" "of_int p < (2::rat) powi (bitlen p)"
proof -
  from bitlen_bounds [OF assms] have b: "2 ^ nat (bitlen p - 1) \<le> p" "p < 2 ^ nat (bitlen p)"
    by simp_all
  from assms have ge: "1 \<le> bitlen p"
    by (simp add: bitlen_alt_def)
  have "(2::rat) powi (bitlen p - 1) = 2 ^ nat (bitlen p - 1)"
    using ge by (simp add: power_int_def)
  also have "\<dots> = of_int (2 ^ nat (bitlen p - 1))" by simp
  also have "\<dots> \<le> of_int p" using b(1) by (simp only: of_int_le_iff)
  finally show "(2::rat) powi (bitlen p - 1) \<le> of_int p" .
  have "(of_int p :: rat) < of_int (2 ^ nat (bitlen p))"
    using b(2) by (simp only: of_int_less_iff)
  also have "\<dots> = 2 ^ nat (bitlen p)" by simp
  also have "\<dots> = 2 powi (bitlen p)"
    using ge by (simp add: power_int_def)
  finally show "of_int p < (2::rat) powi (bitlen p)" .
qed

lemma powi_add1: "(2::rat) powi (d + 1) = 2 powi d * 2"
  by (simp add: power_int_add)

lemma powi_sub1: "(2::rat) powi (d - 1) * 2 = 2 powi d"
  by (rule power_int_minus_mult) simp

lemma exponent_bounds:
  assumes "x \<noteq> 0"
  shows "2 powi exponent x \<le> \<bar>x\<bar>" "\<bar>x\<bar> < 2 powi (exponent x + 1)"
proof -
  obtain p q where pq: "quotient_of \<bar>x\<bar> = (p, q)"
    by (cases "quotient_of \<bar>x\<bar>")
  from quotient_of_denom_pos [OF pq] have q: "0 < q" .
  from quotient_of_div [OF pq] have x: "\<bar>x\<bar> = of_int p / of_int q" .
  from assms have "0 < \<bar>x\<bar>" by simp
  with x q have p: "0 < p"
    by (simp add: zero_less_divide_iff)
  define d where "d = bitlen p - bitlen q"
  have e: "exponent x = (if 2 powi d \<le> \<bar>x\<bar> then d else d - 1)"
    by (simp add: exponent_def pq d_def Let_def)
  note bp = bitlen_powi_bounds [OF p] and bq = bitlen_powi_bounds [OF q]
  have qpos: "(0::rat) < of_int q" using q by simp
  have up: "\<bar>x\<bar> < 2 powi (d + 1)"
  proof -
    have "of_int p < (2::rat) powi (bitlen p)" by (rule bp(2))
    also have "\<dots> = 2 powi (d + 1) * 2 powi (bitlen q - 1)"
      by (simp add: d_def flip: power_int_add)
    also have "\<dots> \<le> 2 powi (d + 1) * of_int q"
      using bq(1) by (simp add: mult_left_mono)
    finally show ?thesis
      using qpos by (simp add: x pos_divide_less_eq)
  qed
  have lo: "2 powi (d - 1) < \<bar>x\<bar>"
  proof -
    have "2 powi (d - 1) * of_int q < (2::rat) powi (d - 1) * 2 powi (bitlen q)"
      using bq(2) by (simp add: mult_strict_left_mono)
    also have "\<dots> = 2 powi (bitlen p - 1)"
      by (simp add: d_def flip: power_int_add)
    also have "\<dots> \<le> of_int p" by (rule bp(1))
    finally show ?thesis
      using qpos by (simp add: x pos_less_divide_eq)
  qed
  show "2 powi exponent x \<le> \<bar>x\<bar>"
    using lo by (simp add: e)
  show "\<bar>x\<bar> < 2 powi (exponent x + 1)"
    using up by (auto simp: e)
qed

lemma roundEven_err: "\<bar>of_int (roundEven q) - q\<bar> \<le> 1 / 2"
proof -
  have "of_int \<lfloor>q\<rfloor> \<le> q" "q < of_int \<lfloor>q\<rfloor> + 1"
    by linarith+
  then show ?thesis
    by (auto simp: roundEven_def Let_def abs_le_iff)
qed

lemma roundEven_nonneg: "0 \<le> q \<Longrightarrow> 0 \<le> roundEven q"
  by (auto simp: roundEven_def Let_def) 

lemma roundEven_nonpos: "q \<le> 0 \<Longrightarrow> roundEven q \<le> 0"
proof (cases "q = 0")
  case True
  then show ?thesis by (simp add: roundEven_def)
next
  case False
  assume "q \<le> 0"
  with False have "q < 0" by simp
  then have "\<lfloor>q\<rfloor> < 0" by (simp add: floor_less_zero)
  then have "\<lfloor>q\<rfloor> + 1 \<le> 0" "\<lfloor>q\<rfloor> \<le> 0" by linarith+
  then show ?thesis by (simp add: roundEven_def Let_def)
qed

lemma fl_err:
  "\<bar>fl x - x\<bar> \<le> \<bar>x\<bar> / 2 ^ 53"
proof (cases "x = 0")
  case True
  then show ?thesis by (simp add: fl_def)
next
  case False
  define u where "u = (2::rat) powi (exponent x - 52)"
  have u: "0 < u" by (simp add: u_def)
  have fl: "fl x = of_int (roundEven (x / u)) * u"
    using False by (simp add: fl_def u_def Let_def)
  have "fl x - x = (of_int (roundEven (x / u)) - x / u) * u"
    using u by (simp add: fl field_simps)
  then have "\<bar>fl x - x\<bar> = \<bar>of_int (roundEven (x / u)) - x / u\<bar> * u"
    using u by (simp add: abs_mult)
  also have "\<dots> \<le> 1 / 2 * u"
    using roundEven_err [of "x / u"] u by (simp add: mult_right_mono)
  also have "u = 2 powi exponent x / 2 ^ 52"
    by (simp add: u_def power_int_diff)
  also have "1 / 2 * (2 powi exponent x / 2 ^ 52) \<le> 1 / 2 * (\<bar>x\<bar> / 2 ^ 52)"
    using exponent_bounds(1) [OF False] by (simp add: divide_right_mono)
  also have "\<dots> = \<bar>x\<bar> / 2 ^ 53" by simp
  finally show ?thesis .
qed

lemma fl_nonneg: "0 \<le> x \<Longrightarrow> 0 \<le> fl x"
  by (auto simp: fl_def Let_def intro!: mult_nonneg_nonneg roundEven_nonneg divide_nonneg_pos)

lemma fl_nonpos: "x \<le> 0 \<Longrightarrow> fl x \<le> 0"
  by (auto simp: fl_def Let_def intro!: mult_nonpos_nonneg roundEven_nonpos divide_nonpos_pos)

lemma percentage_finite:
  assumes "goal \<noteq> 0"
  shows "percentage (ProgressBar current goal) =
           Fin (of_int (min \<lfloor>fl (fl (of_int current / of_int goal) * 100) + 1 / 2\<rfloor> 100))"
  using assms by (simp add: ProgressBar_def divide_num_def min_def)

lemma fl_twice_err:
  assumes "0 \<le> a"
  shows "\<bar>fl (fl a * 100) - a * 100\<bar> \<le> 3 * (a * 100 / 2 ^ 53)"
proof -
  define E where "E = a * 100 / 2 ^ 53"
  define y where "y = fl a * 100"
  have E0: "0 \<le> E" and E1: "E \<le> a * 100"
    using assms by (simp_all add: E_def)
  have "\<bar>fl a - a\<bar> * 100 \<le> \<bar>a\<bar> / 2 ^ 53 * 100"
    by (rule mult_right_mono [OF fl_err]) simp
  also have "\<dots> = E"
    using assms by (simp add: E_def)
  finally have e1: "\<bar>fl a - a\<bar> * 100 \<le> E" .
  have eq: "y - a * 100 = (fl a - a) * 100"
    by (simp add: y_def left_diff_distrib)
  have "\<bar>y - a * 100\<bar> = \<bar>fl a - a\<bar> * \<bar>100\<bar>"
    unfolding eq by (rule abs_mult)
  with e1 have e2: "\<bar>y - a * 100\<bar> \<le> E"
    by simp
  have y0: "0 \<le> y"
    using fl_nonneg [OF assms] by (simp add: y_def)
  from e2 E1 have y2: "y \<le> 2 * (a * 100)"
    by linarith
  have "\<bar>fl y - y\<bar> \<le> \<bar>y\<bar> / 2 ^ 53"
    by (rule fl_err)
  also have "\<dots> = y / 2 ^ 53"
    using y0 by simp
  also have "\<dots> \<le> 2 * (a * 100) / 2 ^ 53"
    by (rule divide_right_mono [OF y2]) simp
  also have "\<dots> = 2 * E"
    by (simp add: E_def)
  finally have e3: "\<bar>fl y - y\<bar> \<le> 2 * E" .
  from e2 e3 have "\<bar>fl y - a * 100\<bar> \<le> 3 * E"
    by linarith
  then show ?thesis
    by (simp only: y_def E_def)
qed

lemma percentage_vs_spec:
  fixes current goal :: int
  assumes c: "0 \<le> current" and g: "0 < goal"
  defines "p \<equiv> min \<lfloor>fl (fl (of_int current / of_int goal) * 100) + 1 / 2\<rfloor> 100"
  shows "\<bar>p - percent_spec current goal\<bar> \<le> 1"
    and "goal < 2 ^ 43 \<Longrightarrow> \<not> 2 * goal dvd 200 * current + goal \<Longrightarrow> p = percent_spec current goal"
    and "2 * goal dvd 200 * current + goal \<Longrightarrow>
           p = percent_spec current goal \<or> p = percent_spec current goal - 1"
proof -
  define a :: rat where "a = of_int current / of_int goal"
  define X where "X = a * 100"
  define xt where "xt = fl (fl a * 100)"
  define d where "d = 3 * (X / 2 ^ 53)"
  define k where "k = \<lfloor>X + 1 / 2\<rfloor>"
  define kt where "kt = \<lfloor>xt + 1 / 2\<rfloor>"
  have a0: "0 \<le> a" using c g by (simp add: a_def)
  then have X0: "0 \<le> X" by (simp add: X_def)
  have err: "\<bar>xt - X\<bar> \<le> d"
    using fl_twice_err [OF a0] by (simp add: xt_def X_def d_def)
  then have e: "X - d \<le> xt" "xt \<le> X + d"
    by linarith+
  have p: "p = min kt 100"
    by (simp add: p_def kt_def xt_def a_def)
  have s: "percent_spec current goal = min k 100"
    by (simp add: percent_spec_def k_def X_def a_def mult.commute)
  have kb: "of_int k \<le> X + 1 / 2" "X + 1 / 2 < of_int k + 1"
    unfolding k_def by linarith+
  have ktb: "of_int kt \<le> xt + 1 / 2" "xt + 1 / 2 < of_int kt + 1"
    unfolding kt_def by linarith+
  have d101: "d \<le> X / 101"
    using X0 by (simp add: d_def field_simps)
  have dsmall: "d < 1 / 2 ^ 44" if "X < 101"
  proof -
    have "d < 3 * (101 / 2 ^ 53)"
      unfolding d_def using that by (simp add: field_simps)
    also have "\<dots> < 1 / 2 ^ 44" by simp
    finally show ?thesis .
  qed
  have big: "p = 100 \<and> percent_spec current goal = 100" if "101 \<le> X"
  proof -
    from e d101 that have "100 \<le> xt" by linarith
    then have "of_int 100 \<le> xt + 1 / 2" by simp
    then have "100 \<le> kt" unfolding kt_def by (simp only: le_floor_iff)
    moreover from that have "of_int 100 \<le> X + 1 / 2" by simp
    then have "100 \<le> k" unfolding k_def by (simp only: le_floor_iff)
    ultimately show ?thesis by (simp add: p s)
  qed
  have near: "k - 1 \<le> kt \<and> kt \<le> k + 1" if "X < 101"
  proof -
    from dsmall [OF that] have "d < 1 / 2"
      by (rule less_trans) simp
    with e kb ktb have "(of_int (k - 1) :: rat) < of_int (kt + 1)"
      "(of_int kt :: rat) < of_int (k + 2)"
      by simp_all
    then have "k - 1 < kt + 1" "kt < k + 2"
      by (simp_all only: of_int_less_iff)
    then show ?thesis by linarith
  qed
  show "\<bar>p - percent_spec current goal\<bar> \<le> 1"
  proof (cases "X < 101")
    case True
    from near [OF True] show ?thesis unfolding p s by linarith
  next
    case False
    with big show ?thesis by simp
  qed
  define N D where "N = 200 * current + goal" and "D = 2 * goal"
  have D0: "0 < D" using g by (simp add: D_def)
  have XN: "X + 1 / 2 = of_int N / of_int D"
    using g by (simp add: X_def a_def N_def D_def field_simps)
  have kdiv: "k = N div D"
    by (simp add: k_def XN floor_divide_of_int_eq)
  show "p = percent_spec current goal"
    if gs: "goal < 2 ^ 43" and nd: "\<not> 2 * goal dvd 200 * current + goal"
  proof (cases "X < 101")
    case False
    with big show ?thesis by simp
  next
    case True
    define r where "r = N mod D"
    have "N mod D \<noteq> 0"
      using nd by (simp add: N_def D_def dvd_eq_mod_eq_0)
    moreover have "0 \<le> N mod D" "N mod D < D"
      using D0 by simp_all
    ultimately have r: "1 \<le> r" "r \<le> D - 1"
      unfolding r_def by linarith+
    have "N = D * k + r"
      by (simp add: kdiv r_def)
    then have "(of_int N :: rat) = of_int D * of_int k + of_int r"
      by (metis of_int_add of_int_mult)
    then have Xr: "X + 1 / 2 = of_int k + of_int r / of_int D"
      using D0 by (simp add: XN field_simps)
    have Dinv: "1 / 2 ^ 44 \<le> 1 / (of_int D :: rat)"
    proof -
      from gs have "D \<le> 2 ^ 44" by (simp add: D_def)
      then have "(of_int D :: rat) \<le> of_int (2 ^ 44)" by (simp only: of_int_le_iff)
      then have "(of_int D :: rat) \<le> 2 ^ 44" by simp
      with D0 show ?thesis by (simp add: frac_le)
    qed
    have lo: "1 / of_int D \<le> (of_int r / of_int D :: rat)"
      using r(1) D0 by (simp add: divide_right_mono)
    have hi: "(of_int r / of_int D :: rat) \<le> 1 - 1 / of_int D"
    proof -
      from r(2) have "(of_int r :: rat) \<le> of_int D - 1"
        by (metis of_int_le_iff of_int_diff of_int_1)
      then have "(of_int r / of_int D :: rat) \<le> (of_int D - 1) / of_int D"
        using D0 by (simp add: divide_right_mono)
      also have "\<dots> = 1 - 1 / of_int D"
        using D0 by (simp add: field_simps)
      finally show ?thesis .
    qed
    from dsmall [OF True] Dinv have "d < 1 / of_int D" by linarith
    with e Xr lo hi have "of_int k \<le> xt + 1 / 2" "xt + 1 / 2 < of_int k + 1"
      by linarith+
    then have "kt = k"
      unfolding kt_def by (simp add: floor_unique)
    then show ?thesis by (simp add: p s)
  qed
  show "p = percent_spec current goal \<or> p = percent_spec current goal - 1"
    if dv: "2 * goal dvd 200 * current + goal"
  proof (cases "X < 101")
    case False
    with big show ?thesis by simp
  next
    case True
    from dv have "N = D * k"
      by (simp add: kdiv N_def D_def)
    then have "(of_int N :: rat) = of_int D * of_int k"
      by (metis of_int_mult)
    then have Xk: "X + 1 / 2 = of_int k"
      using D0 by (simp add: XN)
    from dsmall [OF True] have "d < 1"
      by (rule less_trans) simp
    with e Xk ktb have "(of_int kt :: rat) < of_int (k + 1)"
      by simp
    then have "kt < k + 1"
      by (simp only: of_int_less_iff)
    then have "kt \<le> k" by linarith
    with near [OF True] have "kt = k \<or> kt = k - 1" by linarith
    moreover have "k \<le> 101"
    proof -
      from kb(1) True have "(of_int k :: rat) < of_int 102" by simp
      then show ?thesis by (simp only: of_int_less_iff)
    qed
    ultimately show ?thesis
      by (auto simp: p s min_def)
  qed
qed

section \<open>The invariant of the session lifecycle\<close>

lemma scheduled_reviewed:
  "scheduled (s\<lparr>reviewCount := reviewCount s + 1,
                nextReviewAt := now + daysToAdd (reviewCount s) * 86400000,
                lastNotifiedAt := Some 0, lastReviewedAt := Some now\<rparr>)"
  using daysToAdd_mono [of "reviewCount s" "reviewCount s + 1"]
  by (simp add: scheduled_def)

lemma scheduled_first:
  "scheduled (cur\<lparr>reviewCount := 1, nextReviewAt := now + 86400000, lastReviewedAt := Some now\<rparr>)"
  using daysToAdd_ge_1 [of 1] by (simp add: scheduled_def)

lemma scheduled_handleFinishLearning:
  assumes d: "distinct (map id' prev)" and sch: "\<forall>s\<in>set prev. scheduled s"
  shows "\<forall>s\<in>set (handleFinishLearning prev cur now). scheduled s"
proof (cases "id' cur = []")
  case True
  with sch show ?thesis by (simp add: handleFinishLearning_def)
next
  case ne: False
  show ?thesis
  proof (cases "find (\<lambda>s. id' s = id' cur) prev")
    case None
    with ne sch show ?thesis
      using scheduled_first [where cur = cur and now = now] by (simp add: handleFinishLearning_new)
  next
    case (Some e)
    have "scheduled (if id' s = id' cur
               then s\<lparr>reviewCount := reviewCount s + 1,
                      nextReviewAt := now + daysToAdd (reviewCount e) * 86400000,
                      lastNotifiedAt := Some 0, lastReviewedAt := Some now\<rparr>
               else s)" if s: "s \<in> set prev" for s
    proof (cases "id' s = id' cur")
      case True
      with find_unique [OF d Some s] have "s = e" by simp
      with True show ?thesis
        using scheduled_reviewed [where s = e and now = now] by simp
    next
      case False
      with s sch show ?thesis by simp
    qed
    then show ?thesis
      unfolding handleFinishLearning_existing [OF ne Some] by (rule ball_map)
  qed
qed

lemma distinct_handleFinishLearning:
  assumes "distinct (map id' prev)"
  shows "distinct (map id' (handleFinishLearning prev cur now))"
proof (cases "id' cur = [] \<or> find (\<lambda>s. id' s = id' cur) prev \<noteq> None")
  case True
  then have "map id' (handleFinishLearning prev cur now) = map id' prev"
    using handleFinishLearning_ids [of cur prev now]
    by (auto simp: handleFinishLearning_def)
  with assms show ?thesis by (simp only:)
next
  case False
  then have "id' cur \<notin> id' ` set prev"
    by (auto simp: find_None_iff)
  with False assms show ?thesis
    by (simp add: handleFinishLearning_new)
qed

lemma ids_handleFinishLearning:
  "id' ` set prev \<subseteq> id' ` set (handleFinishLearning prev cur now)"
proof (cases "id' cur = [] \<or> find (\<lambda>s. id' s = id' cur) prev \<noteq> None")
  case True
  then have "map id' (handleFinishLearning prev cur now) = map id' prev"
    using handleFinishLearning_ids [of cur prev now]
    by (auto simp: handleFinishLearning_def)
  then have "set (map id' (handleFinishLearning prev cur now)) = set (map id' prev)"
    by simp
  then show ?thesis by (simp only: set_map)
next
  case False
  then show ?thesis
    by (auto simp: handleFinishLearning_new)
qed

lemma invariant_initial: "invariant (initialApp t)"
  by (simp add: invariant_def initialApp_def emptySession_def)

lemma fresh_newSession: "fresh now (newSession content now)"
  by (simp add: fresh_def newSession_def)

lemma fresh_submitTranslation:
  assumes "fresh c cur" "c \<le> now"
  shows "fresh now (submitTranslation cur u a k now)"
  using assms by (auto simp: fresh_def submitTranslation_def)

lemma fresh_later: "fresh c cur \<Longrightarrow> c \<le> c' \<Longrightarrow> fresh c' cur"
  by (simp add: fresh_def)

lemma invariant_step:
  assumes inv: "invariant st" and st: "step st e = Some st'"
  shows "invariant st'"
proof (cases e)
  case (Capture content now)
  with st have "st' = st\<lparr>currentSession := newSession content now, clock := now\<rparr>"
    by (simp split: if_splits)
  with inv show ?thesis
    by (simp add: invariant_def fresh_newSession)
next
  case (SubmitTranslation u a k now)
  with st have le: "clock st \<le> now"
    and eq: "st' = st\<lparr>currentSession := submitTranslation (currentSession st) u a k now,
                     clock := now\<rparr>"
    by (simp_all split: if_splits)
  have "id' (submitTranslation (currentSession st) u a k now) = id' (currentSession st)"
    by (simp add: submitTranslation_def)
  with inv le eq show ?thesis
    by (auto simp: invariant_def fresh_submitTranslation)
next
  case (OpenSession i)
  with st have "i < length (sessions st)" and "st' = st\<lparr>currentSession := sessions st ! i\<rparr>"
    by (simp_all split: if_splits)
  with inv show ?thesis
    by (simp add: invariant_def)
next
  case ClickNotification
  with st obtain n where "notification st = Some n"
    and "st' = st\<lparr>currentSession := firstSession n, notification := None\<rparr>"
    by (auto split: option.splits)
  with inv show ?thesis
    by (simp add: invariant_def)
next
  case (FinishLearning now)
  show ?thesis
  proof (cases "id' (currentSession st) = []")
    case True
    with st FinishLearning have "st' = st"
      by (simp split: if_splits)
    with inv show ?thesis by simp
  next
    case False
    with st FinishLearning have
      eq: "st' = st\<lparr>sessions := handleFinishLearning (sessions st) (currentSession st) now,
                     currentSession := emptySession, clock := now\<rparr>"
      by (simp split: if_splits)
    from inv have d: "distinct (map id' (sessions st))"
      and s: "\<forall>s\<in>set (sessions st). scheduled s"
      and n: "\<forall>n. notification st = Some n \<longrightarrow> id' (firstSession n) \<in> id' ` set (sessions st)"
      by (simp_all add: invariant_def)
    have "\<forall>n. notification st = Some n \<longrightarrow>
            id' (firstSession n)
              \<in> id' ` set (handleFinishLearning (sessions st) (currentSession st) now)"
      using n ids_handleFinishLearning [of "sessions st" "currentSession st" now] by blast
    with eq show ?thesis
      using distinct_handleFinishLearning [OF d, of "currentSession st" now]
        scheduled_handleFinishLearning [OF d s, of "currentSession st" now]
      by (simp add: invariant_def emptySession_def)
  qed
next
  case (CheckReviews p now)
  obtain n ss where c: "checkReviews p (sessions st) now = (n, ss)"
    by (cases "checkReviews p (sessions st) now") simp
  with st CheckReviews have le: "clock st \<le> now"
    and eq: "st' = st\<lparr>sessions := ss,
                     notification := (case n of None \<Rightarrow> notification st | Some x \<Rightarrow> Some x),
                     clock := now\<rparr>"
    by (simp_all split: if_splits)
  from c have ids: "map id' ss = map id' (sessions st)"
    using checkReviews_ids [of p "sessions st" now] by simp
  then have "set (map id' ss) = set (map id' (sessions st))" by simp
  then have img: "id' ` set ss = id' ` set (sessions st)" by (simp only: set_map)
  from c inv have sch: "\<forall>s\<in>set ss. scheduled s"
    using checkReviews_scheduled [of "sessions st" p now] by (simp add: invariant_def)
  have nn: "id' (firstSession x) \<in> id' ` set ss" if "n = Some x" for x
    using checkReviews_firstSession [of p "sessions st" now x] c that img by simp
  from inv have "distinct (map id' ss)"
    by (simp add: ids invariant_def)
  moreover have "id' (currentSession st) = [] \<or> id' (currentSession st) \<in> id' ` set ss
          \<or> fresh now (currentSession st)"
    using inv le fresh_later [of "clock st" "currentSession st" now]
    by (auto simp: invariant_def img)
  moreover have "\<forall>m. (case n of None \<Rightarrow> notification st | Some x \<Rightarrow> Some x) = Some m \<longrightarrow>
       id' (firstSession m) \<in> id' ` set ss"
    using inv nn by (auto simp: invariant_def img split: option.splits)
  ultimately show ?thesis
    using sch by (simp add: eq invariant_def)
next
  case RenderReviewCenter
  with st have eq: "st' = st\<lparr>sessions := sort_key nextReviewAt (sessions st)\<rparr>"
    by (simp add: renderReviewCenter_eq)
  have "distinct (map id' (sort_key nextReviewAt (sessions st)))
          = distinct (map id' (sessions st))"
    by (metis distinct_map distinct_sort set_sort)
  with inv show ?thesis
    by (simp add: eq invariant_def)
next
  case Reload
  with st have "st' = st\<lparr>currentSession := emptySession, notification := None\<rparr>"
    by simp
  with inv show ?thesis
    by (simp add: invariant_def emptySession_def)
qed

lemma invariant_run: "invariant st \<Longrightarrow> run st es = Some st' \<Longrightarrow> invariant st'"
proof (induction es arbitrary: st)
  case Nil
  then show ?case by simp
next
  case (Cons e es)
  then show ?case
    by (auto split: option.splits dest: invariant_step)
qed

text \<open>
  No stored record is ever scheduled with the second entry of the table, two days: a
  stored record has \<open>reviewCount \<ge> 1\<close>, so the index read is at least \<open>2\<close>.
\<close>

lemma two_day_interval_unused:
  assumes "run (initialApp t0) events = Some st" and "s \<in> set (sessions st)"
  shows "1 \<le> reviewCount s \<and> 2 \<le> nextIntervalIndex (reviewCount s)
           \<and> daysToAdd (reviewCount s) \<noteq> 2"
proof -
  from invariant_run [OF invariant_initial assms(1)] assms(2) have rc: "1 \<le> reviewCount s"
    by (simp add: invariant_def scheduled_def)
  then have "nextIntervalIndex (reviewCount s) \<in> {2, 3, 4, 5}"
    by (auto simp: nextIntervalIndex_eq min_def)
  with rc show ?thesis
    by (auto simp: daysToAdd_def EBBINGHAUS_INTERVALS_def)
qed

section \<open>Two sessions used as concrete inputs\<close>

lemma first_finish:
  "handleFinishLearning [] (newSession ''hello'' 1000) 2000 =
     [\<lparr>id' = ''1000'', originalImage = None, extractedText = ''hello'', words = [],
       userTranslation = [], aiTranslation = [], aiComparison = [],
       createdAt = 1000, nextReviewAt = 86402000, reviewCount = 1,
       lastNotifiedAt = None, lastReviewedAt = Some 2000\<rparr>]"
  by (simp add: handleFinishLearning_new newSession_def toString_1000)

lemma two_finished:
  "handleFinishLearning (handleFinishLearning [] (newSession ''first'' 1000) 1000)
         (newSession ''second'' 2000) 2000 =
    [\<lparr>id' = ''2000'', originalImage = None, extractedText = ''second'', words = [],
      userTranslation = [], aiTranslation = [], aiComparison = [],
      createdAt = 2000, nextReviewAt = 86402000, reviewCount = 1,
      lastNotifiedAt = None, lastReviewedAt = Some 2000\<rparr>,
     \<lparr>id' = ''1000'', originalImage = None, extractedText = ''first'', words = [],
      userTranslation = [], aiTranslation = [], aiComparison = [],
      createdAt = 1000, nextReviewAt = 86401000, reviewCount = 1,
      lastNotifiedAt = None, lastReviewedAt = Some 1000\<rparr>]"
  by (simp add: handleFinishLearning_def newSession_def toString_1000 toString_2000
      firstIntervalDays_def EBBINGHAUS_INTERVALS_def)

section \<open>The claims\<close>

text \<open>
  Claim C1. With the table \<open>[1,2,4,7,15,30]\<close>, the first completion of a new item at
  \<open>T\<close> gives \<open>reviewCount = 1\<close> and \<open>nextReviewAt = T + 1 day\<close>; the claim expects the
  second completion, at \<open>T' = T + 1 day + \<epsilon>\<close>, to give \<open>reviewCount = 2\<close> and
  \<open>nextReviewAt = T' + 2 days\<close>. The code reads the table at the index
  \<open>reviewCount + 1 = 2\<close> and schedules \<open>T' + 4 days\<close>. Here the item is created at
  \<open>1000\<close>, \<open>T = 5000\<close> and \<open>\<epsilon> = 1\<close>; the second completion is on the stored record,
  opened from the list.
\<close>

theorem second_review_is_scheduled_four_days_later:
  "map (\<lambda>s. (reviewCount s, nextReviewAt s))
       (handleFinishLearning [] (newSession ''hello'' 1000) 5000)
     = [(1, 5000 + 86400000)]
   \<and> map (\<lambda>s. (reviewCount s, nextReviewAt s))
       (handleFinishLearning
          (handleFinishLearning [] (newSession ''hello'' 1000) 5000)
          (hd (handleFinishLearning [] (newSession ''hello'' 1000) 5000))
          (5000 + 86400000 + 1))
     = [(2, (5000 + 86400000 + 1) + 4 * 86400000)]"
  by (simp add: handleFinishLearning_def newSession_def toString_1000 or0_id daysToAdd_def
      nextIntervalIndex_eq firstIntervalDays_def EBBINGHAUS_INTERVALS_def)

text \<open>
  Claim C2. For every list of records and every instant \<open>now\<close>, the detection of newly
  due sessions returns exactly the records with \<open>nextReviewAt \<le> now\<close> and
  (\<open>lastNotifiedAt\<close> absent or zero, or \<open>lastNotifiedAt < nextReviewAt\<close>), in the order
  of the list.
\<close>

theorem dueSessions_is_newlyDue:
  "dueSessions ss now = newlyDue_spec ss now"
  unfolding dueSessions_def newlyDue_spec_def
  by (rule filter_cong) (auto simp: isNewlyDue_def falsy_def split: option.splits)

text \<open>
  Claim C3, as amended. For every instant \<open>now\<close> other than \<open>0\<close> and with the permission
  granted, \<open>checkReviews\<close> issues a notification exactly when the newly due set is not
  empty and sets \<open>lastNotifiedAt = now\<close> on every record of that set; a second run on the
  resulting records at an instant \<open>now' \<ge> now\<close>, before any record's \<open>nextReviewAt\<close> is
  crossed, finds no newly due record and issues nothing.
\<close>

theorem checkReviews_idempotent:
  assumes "now \<noteq> 0"
  shows "((fst (checkReviews granted ss now) \<noteq> None) = (dueSessions ss now \<noteq> []))
    \<and> length (snd (checkReviews granted ss now)) = length ss
    \<and> (\<forall>i<length ss. ss ! i \<in> set (dueSessions ss now) \<longrightarrow>
          lastNotifiedAt (snd (checkReviews granted ss now) ! i) = Some now)
    \<and> (now \<le> now' \<and> (\<forall>s\<in>set ss. \<not> (now < nextReviewAt s \<and> nextReviewAt s \<le> now')) \<longrightarrow>
          dueSessions (snd (checkReviews granted ss now)) now' = []
          \<and> fst (checkReviews granted (snd (checkReviews granted ss now)) now') = None)"
proof (intro conjI impI allI)
  show "(fst (checkReviews granted ss now) \<noteq> None) = (dueSessions ss now \<noteq> [])"
    by (simp add: checkReviews_granted)
  show "length (snd (checkReviews granted ss now)) = length ss"
    by (simp add: checkReviews_granted)
  show "lastNotifiedAt (snd (checkReviews granted ss now) ! i) = Some now"
    if "i < length ss" "ss ! i \<in> set (dueSessions ss now)" for i
    using that by (rule first_check_marks)
  assume "now \<le> now' \<and> (\<forall>s\<in>set ss. \<not> (now < nextReviewAt s \<and> nextReviewAt s \<le> now'))"
  then show e: "dueSessions (snd (checkReviews granted ss now)) now' = []"
    using second_check_empty [OF assms] by blast
  then show "fst (checkReviews granted (snd (checkReviews granted ss now)) now') = None"
    by (simp add: checkReviews_granted [of "snd (checkReviews granted ss now)"])
qed

text \<open>
  A record due at \<open>86402000\<close>, checked at that instant and again a minute later.
\<close>

theorem checkReviews_idempotent_witness:
  "(86402000 :: int) \<noteq> 0
   \<and> dueSessions (handleFinishLearning [] (newSession ''hello'' 1000) 2000) 86402000 \<noteq> []
   \<and> fst (checkReviews granted (handleFinishLearning [] (newSession ''hello'' 1000) 2000) 86402000)
        \<noteq> None
   \<and> lastNotifiedAt
        (snd (checkReviews granted (handleFinishLearning [] (newSession ''hello'' 1000) 2000)
                86402000) ! 0) = Some 86402000
   \<and> fst (checkReviews granted
        (snd (checkReviews granted (handleFinishLearning [] (newSession ''hello'' 1000) 2000)
                86402000)) 86462000) = None"
proof -
  let ?ss = "handleFinishLearning [] (newSession ''hello'' 1000) 2000"
  have n: "(86402000 :: int) \<noteq> 0" by simp
  have due: "dueSessions ?ss 86402000 = ?ss"
    by (simp add: first_finish dueSessions_def isNewlyDue_def falsy_def)
  have len: "length ?ss = 1"
    by (simp add: first_finish)
  have cross: "(86402000 :: int) \<le> 86462000
      \<and> (\<forall>s\<in>set ?ss. \<not> (86402000 < nextReviewAt s \<and> nextReviewAt s \<le> 86462000))"
    by (simp add: first_finish)
  from checkReviews_idempotent [OF n, of ?ss 86462000] due len cross show ?thesis
    by (simp add: first_finish)
qed

text \<open>
  Claim C3 as stated fails at the instant \<open>0\<close>, which is also the value that the code
  reads as "never notified": a record due at \<open>0\<close> is notified at \<open>0\<close> and again by the
  second run at the same instant.
\<close>

theorem checkReviews_repeats_at_epoch:
  "dueSessions (snd (checkReviews granted [(newSession ''hello'' 0)\<lparr>nextReviewAt := 0\<rparr>] 0)) 0
      \<noteq> []
   \<and> fst (checkReviews granted
            (snd (checkReviews granted [(newSession ''hello'' 0)\<lparr>nextReviewAt := 0\<rparr>] 0)) 0)
      \<noteq> None"
  by (simp add: checkReviews_granted dueSessions_def isNewlyDue_def falsy_def newSession_def)

text \<open>
  Claim C4. In every state that the events of the application lead to from an empty
  store, completing the current session at an instant not earlier than the last
  scheduling event of its record does not move \<open>nextReviewAt\<close> back: for the stored
  record with the identifier of the current session, and, when there is none, for the
  current session itself, which becomes the new first record.
\<close>

theorem nextReviewAt_monotone:
  assumes "run (initialApp t0) events = Some st" and "id' (currentSession st) \<noteq> []"
  shows "(\<forall>i<length (sessions st).
            id' (sessions st ! i) = id' (currentSession st)
            \<and> lastScheduled (sessions st ! i) \<le> now \<longrightarrow>
              nextReviewAt (sessions st ! i)
                \<le> nextReviewAt (handleFinishLearning (sessions st) (currentSession st) now ! i))
       \<and> (find (\<lambda>s. id' s = id' (currentSession st)) (sessions st) = None
            \<and> lastScheduled (currentSession st) \<le> now \<longrightarrow>
              nextReviewAt (currentSession st)
                \<le> nextReviewAt (hd (handleFinishLearning (sessions st) (currentSession st) now)))"
proof -
  let ?ss = "sessions st" and ?cur = "currentSession st"
  have inv: "invariant st"
    using invariant_run [OF invariant_initial assms(1)] .
  then have d: "distinct (map id' ?ss)" and sch: "\<forall>s\<in>set ?ss. scheduled s"
    and cur: "id' ?cur \<in> id' ` set ?ss \<or> fresh (clock st) ?cur"
    using assms(2) by (simp_all add: invariant_def)
  have 1: "nextReviewAt (?ss ! i) \<le> nextReviewAt (handleFinishLearning ?ss ?cur now ! i)"
    if i: "i < length ?ss" and m: "id' (?ss ! i) = id' ?cur"
      and t: "lastScheduled (?ss ! i) \<le> now" for i
  proof -
    from nth_mem [OF i] m have "\<exists>x\<in>set ?ss. id' x = id' ?cur"
      by blast
    then have "find (\<lambda>s. id' s = id' ?cur) ?ss \<noteq> None"
      unfolding find_None_iff by blast
    then obtain e where e: "find (\<lambda>s. id' s = id' ?cur) ?ss = Some e" by auto
    from find_unique [OF d e _ m] i have "?ss ! i = e" by simp
    moreover from sch i have "scheduled (?ss ! i)" by simp
    ultimately obtain t' where "lastReviewedAt e = Some t'"
      "nextReviewAt e \<le> t' + daysToAdd (reviewCount e) * 86400000"
      by (auto simp: scheduled_def)
    with t \<open>?ss ! i = e\<close> have "nextReviewAt e \<le> now + daysToAdd (reviewCount e) * 86400000"
      by (simp add: lastScheduled_def)
    with i m \<open>?ss ! i = e\<close> show ?thesis
      by (simp add: handleFinishLearning_existing [OF assms(2) e])
  qed
  have 2: "nextReviewAt ?cur \<le> nextReviewAt (hd (handleFinishLearning ?ss ?cur now))"
    if n: "find (\<lambda>s. id' s = id' ?cur) ?ss = None" and t: "lastScheduled ?cur \<le> now"
  proof -
    from n have "id' ?cur \<notin> id' ` set ?ss"
      by (auto simp: find_None_iff)
    with cur have "fresh (clock st) ?cur" by simp
    with t have "nextReviewAt ?cur \<le> now + 86400000"
      by (simp add: fresh_def lastScheduled_def)
    then show ?thesis
      by (simp add: handleFinishLearning_new [OF assms(2) n])
  qed
  from 1 2 show ?thesis by blast
qed

text \<open>
  Two states: a session captured at \<open>1000\<close>, finished at \<open>2000\<close> and opened again from
  the list, which is completed a second time at \<open>86402001\<close>; and a session captured at
  \<open>1000\<close> and not yet stored, which is completed for the first time at \<open>2000\<close>.
\<close>

theorem nextReviewAt_monotone_witness:
  "(\<exists>st. run (initialApp 0) [Capture ''hello'' 1000, FinishLearning 2000, OpenSession 0] = Some st
       \<and> id' (currentSession st) \<noteq> []
       \<and> id' (sessions st ! 0) = id' (currentSession st)
       \<and> lastScheduled (sessions st ! 0) \<le> 86402001
       \<and> nextReviewAt (sessions st ! 0)
            \<le> nextReviewAt (handleFinishLearning (sessions st) (currentSession st) 86402001 ! 0))
   \<and> (\<exists>st. run (initialApp 0) [Capture ''hello'' 1000] = Some st
       \<and> id' (currentSession st) \<noteq> []
       \<and> find (\<lambda>s. id' s = id' (currentSession st)) (sessions st) = None
       \<and> lastScheduled (currentSession st) \<le> 2000
       \<and> nextReviewAt (currentSession st)
            \<le> nextReviewAt (hd (handleFinishLearning (sessions st) (currentSession st) 2000)))"
proof (intro conjI)
  let ?r = "\<lparr>id' = ''1000'', originalImage = None, extractedText = ''hello'', words = [],
       userTranslation = [], aiTranslation = [], aiComparison = [],
       createdAt = 1000, nextReviewAt = 86402000, reviewCount = 1,
       lastNotifiedAt = None, lastReviewedAt = Some 2000\<rparr>"
  let ?st = "\<lparr>sessions = [?r], currentSession = ?r, notification = None, clock = 2000\<rparr>"
  have id: "id' (newSession ''hello'' 1000) \<noteq> []"
    by (simp add: newSession_def toString_1000)
  have r: "run (initialApp 0) [Capture ''hello'' 1000, FinishLearning 2000, OpenSession 0]
             = Some ?st"
    using id by (simp add: initialApp_def first_finish)
  have ne: "id' (currentSession ?st) \<noteq> []" by simp
  have t: "id' (sessions ?st ! 0) = id' (currentSession ?st)
             \<and> lastScheduled (sessions ?st ! 0) \<le> 86402001"
    by (simp add: lastScheduled_def)
  from nextReviewAt_monotone [OF r ne, of 86402001] t
  have "nextReviewAt (sessions ?st ! 0)
          \<le> nextReviewAt (handleFinishLearning (sessions ?st) (currentSession ?st) 86402001 ! 0)"
    by simp
  with r ne t show "\<exists>st. run (initialApp 0)
         [Capture ''hello'' 1000, FinishLearning 2000, OpenSession 0] = Some st
       \<and> id' (currentSession st) \<noteq> []
       \<and> id' (sessions st ! 0) = id' (currentSession st)
       \<and> lastScheduled (sessions st ! 0) \<le> 86402001
       \<and> nextReviewAt (sessions st ! 0)
            \<le> nextReviewAt (handleFinishLearning (sessions st) (currentSession st) 86402001 ! 0)"
    by blast
next
  let ?st = "\<lparr>sessions = [], currentSession = newSession ''hello'' 1000,
              notification = None, clock = 1000\<rparr>"
  have r: "run (initialApp 0) [Capture ''hello'' 1000] = Some ?st"
    by (simp add: initialApp_def)
  have ne: "id' (currentSession ?st) \<noteq> []"
    by (simp add: newSession_def toString_1000)
  have t: "find (\<lambda>s. id' s = id' (currentSession ?st)) (sessions ?st) = None
             \<and> lastScheduled (currentSession ?st) \<le> 2000"
    by (simp add: lastScheduled_def newSession_def)
  from nextReviewAt_monotone [OF r ne, of 2000] t
  have "nextReviewAt (currentSession ?st)
          \<le> nextReviewAt (hd (handleFinishLearning (sessions ?st) (currentSession ?st) 2000))"
    by simp
  with r ne t show "\<exists>st. run (initialApp 0) [Capture ''hello'' 1000] = Some st
       \<and> id' (currentSession st) \<noteq> []
       \<and> find (\<lambda>s. id' s = id' (currentSession st)) (sessions st) = None
       \<and> lastScheduled (currentSession st) \<le> 2000
       \<and> nextReviewAt (currentSession st)
            \<le> nextReviewAt (hd (handleFinishLearning (sessions st) (currentSession st) 2000))"
    by blast
qed



text \<open>
  Claim C6. The lookup in the interval table plateaus. The index that the code reads
  is always in the table; for every stage \<open>reviewCount + 1\<close> at or beyond the length of
  the table the interval is the last entry; and for every stored record whose
  \<open>reviewCount + 1\<close> is at or beyond the last index, completing its review schedules
  \<open>nextReviewAt = now + 30 days\<close>.
\<close>

theorem interval_lookup_plateaus:
  "nextIntervalIndex rc < length EBBINGHAUS_INTERVALS
   \<and> (length EBBINGHAUS_INTERVALS \<le> rc + 1 \<longrightarrow>
         daysToAdd rc = EBBINGHAUS_INTERVALS ! (length EBBINGHAUS_INTERVALS - 1)
         \<and> daysToAdd rc = 30)
   \<and> (id' cur \<noteq> [] \<and> find (\<lambda>s. id' s = id' cur) prev = Some existing
        \<and> length EBBINGHAUS_INTERVALS - 1 \<le> reviewCount existing + 1 \<longrightarrow>
         (\<forall>i<length prev. id' (prev ! i) = id' cur \<longrightarrow>
             nextReviewAt (handleFinishLearning prev cur now ! i) = now + 30 * 86400000))"
proof (intro conjI impI allI)
  show "nextIntervalIndex rc < length EBBINGHAUS_INTERVALS"
    by (simp add: nextIntervalIndex_eq length_EBBINGHAUS_INTERVALS)
  show "daysToAdd rc = EBBINGHAUS_INTERVALS ! (length EBBINGHAUS_INTERVALS - 1)"
    if "length EBBINGHAUS_INTERVALS \<le> rc + 1"
    using that by (simp add: daysToAdd_def nextIntervalIndex_eq length_EBBINGHAUS_INTERVALS)
  show "daysToAdd rc = 30" if "length EBBINGHAUS_INTERVALS \<le> rc + 1"
    using that by (simp add: daysToAdd_plateau length_EBBINGHAUS_INTERVALS)
  fix i
  assume a: "id' cur \<noteq> [] \<and> find (\<lambda>s. id' s = id' cur) prev = Some existing
        \<and> length EBBINGHAUS_INTERVALS - 1 \<le> reviewCount existing + 1"
    and i: "i < length prev" "id' (prev ! i) = id' cur"
  from a have "4 \<le> reviewCount existing"
    by (simp add: length_EBBINGHAUS_INTERVALS)
  then have "daysToAdd (reviewCount existing) = 30"
    by (rule daysToAdd_plateau)
  with a i show "nextReviewAt (handleFinishLearning prev cur now ! i) = now + 30 * 86400000"
    by (simp add: handleFinishLearning_existing)
qed

text \<open>
  A record that has been reviewed four times, completed once more at \<open>9000\<close>; and the
  stage \<open>7 + 1\<close>, beyond the table.
\<close>

theorem interval_lookup_plateaus_witness:
  "length EBBINGHAUS_INTERVALS \<le> 7 + 1
   \<and> daysToAdd 7 = 30
   \<and> id' (newSession ''hello'' 1000) \<noteq> []
   \<and> find (\<lambda>s. id' s = id' (newSession ''hello'' 1000))
        [(newSession ''hello'' 1000)\<lparr>reviewCount := 4\<rparr>]
       = Some ((newSession ''hello'' 1000)\<lparr>reviewCount := 4\<rparr>)
   \<and> length EBBINGHAUS_INTERVALS - 1 \<le> reviewCount ((newSession ''hello'' 1000)\<lparr>reviewCount := 4\<rparr>) + 1
   \<and> nextReviewAt (handleFinishLearning [(newSession ''hello'' 1000)\<lparr>reviewCount := 4\<rparr>]
        (newSession ''hello'' 1000) 9000 ! 0) = 9000 + 30 * 86400000"
proof -
  let ?cur = "newSession ''hello'' 1000"
  let ?e = "?cur\<lparr>reviewCount := 4\<rparr>"
  have ne: "id' ?cur \<noteq> []"
    by (simp add: newSession_def toString_1000)
  have f: "find (\<lambda>s. id' s = id' ?cur) [?e] = Some ?e"
    by simp
  have l: "length EBBINGHAUS_INTERVALS \<le> 7 + 1
      \<and> length EBBINGHAUS_INTERVALS - 1 \<le> reviewCount ?e + 1"
    by (simp add: length_EBBINGHAUS_INTERVALS)
  from interval_lookup_plateaus [of 7 ?cur "[?e]" ?e 9000] ne f l
  have "daysToAdd 7 = 30
      \<and> nextReviewAt (handleFinishLearning [?e] ?cur 9000 ! 0) = 9000 + 30 * 86400000"
    by simp
  with ne f l show ?thesis by blast
qed

section \<open>Daily progress\<close>


lemma dailyProgress_kept:
  "memoDeps c = (vr, sr) \<Longrightarrow> dailyProgress f (Some c) vr vocabulary sr ss now = c"
  by (simp add: dailyProgress_def)







text \<open>
  Claim C9. Completing a review replaces whole records and changes only the
  scheduling fields. When a record with the identifier of the current session is
  stored, the list keeps its length, every record with another identifier is untouched,
  and a record with that identifier differs only in \<open>reviewCount\<close>, \<open>nextReviewAt\<close>,
  \<open>lastNotifiedAt\<close> and \<open>lastReviewedAt\<close>; with distinct identifiers in the store that is
  exactly one record. When none is stored, the new record is put in front of the list.
\<close>

theorem handleFinishLearning_frame:
  assumes "id' cur \<noteq> []"
  shows "(find (\<lambda>s. id' s = id' cur) prev = Some existing \<longrightarrow>
           length (handleFinishLearning prev cur now) = length prev
           \<and> (\<forall>i<length prev.
                 (id' (prev ! i) \<noteq> id' cur \<longrightarrow> handleFinishLearning prev cur now ! i = prev ! i)
               \<and> (id' (prev ! i) = id' cur \<longrightarrow>
                    handleFinishLearning prev cur now ! i =
                      (prev ! i)\<lparr>reviewCount := reviewCount (prev ! i) + 1,
                                 nextReviewAt := now + daysToAdd (reviewCount existing) * 86400000,
                                 lastNotifiedAt := Some 0, lastReviewedAt := Some now\<rparr>
                  \<and> id' (handleFinishLearning prev cur now ! i) = id' (prev ! i)
                  \<and> createdAt (handleFinishLearning prev cur now ! i) = createdAt (prev ! i)
                  \<and> extractedText (handleFinishLearning prev cur now ! i) = extractedText (prev ! i)
                  \<and> words (handleFinishLearning prev cur now ! i) = words (prev ! i)
                  \<and> userTranslation (handleFinishLearning prev cur now ! i)
                      = userTranslation (prev ! i)
                  \<and> aiTranslation (handleFinishLearning prev cur now ! i) = aiTranslation (prev ! i)
                  \<and> aiComparison (handleFinishLearning prev cur now ! i) = aiComparison (prev ! i)
                  \<and> originalImage (handleFinishLearning prev cur now ! i)
                      = originalImage (prev ! i)))
           \<and> (distinct (map id' prev) \<longrightarrow> (\<exists>!i. i < length prev \<and> id' (prev ! i) = id' cur)))
       \<and> (find (\<lambda>s. id' s = id' cur) prev = None \<longrightarrow>
            handleFinishLearning prev cur now =
              cur\<lparr>reviewCount := 1, nextReviewAt := now + 86400000,
                  lastReviewedAt := Some now\<rparr> # prev)"
proof (intro conjI impI)
  assume e: "find (\<lambda>s. id' s = id' cur) prev = Some existing"
  note eq = handleFinishLearning_existing [OF assms e, of now]
  show "length (handleFinishLearning prev cur now) = length prev"
    by (simp add: eq)
  show "\<forall>i<length prev.
                 (id' (prev ! i) \<noteq> id' cur \<longrightarrow> handleFinishLearning prev cur now ! i = prev ! i)
               \<and> (id' (prev ! i) = id' cur \<longrightarrow>
                    handleFinishLearning prev cur now ! i =
                      (prev ! i)\<lparr>reviewCount := reviewCount (prev ! i) + 1,
                                 nextReviewAt := now + daysToAdd (reviewCount existing) * 86400000,
                                 lastNotifiedAt := Some 0, lastReviewedAt := Some now\<rparr>
                  \<and> id' (handleFinishLearning prev cur now ! i) = id' (prev ! i)
                  \<and> createdAt (handleFinishLearning prev cur now ! i) = createdAt (prev ! i)
                  \<and> extractedText (handleFinishLearning prev cur now ! i) = extractedText (prev ! i)
                  \<and> words (handleFinishLearning prev cur now ! i) = words (prev ! i)
                  \<and> userTranslation (handleFinishLearning prev cur now ! i)
                      = userTranslation (prev ! i)
                  \<and> aiTranslation (handleFinishLearning prev cur now ! i) = aiTranslation (prev ! i)
                  \<and> aiComparison (handleFinishLearning prev cur now ! i) = aiComparison (prev ! i)
                  \<and> originalImage (handleFinishLearning prev cur now ! i)
                      = originalImage (prev ! i))"
    by (simp add: eq)
  show "\<exists>!i. i < length prev \<and> id' (prev ! i) = id' cur" if d: "distinct (map id' prev)"
  proof -
    from find_Some_index [OF e] obtain i where i: "i < length prev" "id' (prev ! i) = id' cur"
      by blast
    show ?thesis
    proof (rule ex1I [of _ i])
      show "i < length prev \<and> id' (prev ! i) = id' cur" using i by simp
      show "j = i" if "j < length prev \<and> id' (prev ! j) = id' cur" for j
        using distinct_unique_index [OF d, of j i] that i by simp
    qed
  qed
next
  assume "find (\<lambda>s. id' s = id' cur) prev = None"
  then show "handleFinishLearning prev cur now =
              cur\<lparr>reviewCount := 1, nextReviewAt := now + 86400000,
                  lastReviewedAt := Some now\<rparr> # prev"
    by (rule handleFinishLearning_new [OF assms])
qed

text \<open>
  The store of two finished sessions, where the session captured at \<open>2000\<close> is completed
  again at \<open>9000\<close>; and its first completion, when the store holds the other one only.
\<close>

theorem handleFinishLearning_frame_witness:
  "id' (newSession ''second'' 2000) \<noteq> []
   \<and> find (\<lambda>s. id' s = id' (newSession ''second'' 2000))
        (handleFinishLearning (handleFinishLearning [] (newSession ''first'' 1000) 1000)
           (newSession ''second'' 2000) 2000)
       = Some (hd (handleFinishLearning (handleFinishLearning [] (newSession ''first'' 1000) 1000)
           (newSession ''second'' 2000) 2000))
   \<and> distinct (map id' (handleFinishLearning (handleFinishLearning [] (newSession ''first'' 1000) 1000)
           (newSession ''second'' 2000) 2000))
   \<and> handleFinishLearning
        (handleFinishLearning (handleFinishLearning [] (newSession ''first'' 1000) 1000)
           (newSession ''second'' 2000) 2000) (newSession ''second'' 2000) 9000 ! 1
       = handleFinishLearning (handleFinishLearning [] (newSession ''first'' 1000) 1000)
           (newSession ''second'' 2000) 2000 ! 1
   \<and> extractedText (handleFinishLearning
        (handleFinishLearning (handleFinishLearning [] (newSession ''first'' 1000) 1000)
           (newSession ''second'' 2000) 2000) (newSession ''second'' 2000) 9000 ! 0) = ''second''
   \<and> reviewCount (handleFinishLearning
        (handleFinishLearning (handleFinishLearning [] (newSession ''first'' 1000) 1000)
           (newSession ''second'' 2000) 2000) (newSession ''second'' 2000) 9000 ! 0) = 2
   \<and> find (\<lambda>s. id' s = id' (newSession ''second'' 2000))
        (handleFinishLearning [] (newSession ''first'' 1000) 1000) = None
   \<and> length (handleFinishLearning (handleFinishLearning [] (newSession ''first'' 1000) 1000)
           (newSession ''second'' 2000) 2000) = 2"
proof -
  let ?cur = "newSession ''second'' 2000"
  let ?one = "handleFinishLearning [] (newSession ''first'' 1000) 1000"
  let ?store = "handleFinishLearning ?one ?cur 2000"
  have id: "id' ?cur = ''2000''"
    by (simp add: newSession_def toString_2000)
  then have ne: "id' ?cur \<noteq> []" by simp
  have one: "find (\<lambda>s. id' s = id' ?cur) ?one = None"
    by (simp add: handleFinishLearning_def newSession_def toString_1000 toString_2000)
  have f: "find (\<lambda>s. id' s = id' ?cur) ?store = Some (hd ?store)"
    by (simp add: two_finished id)
  have d: "distinct (map id' ?store)"
    by (simp add: two_finished)
  have ids: "1 < length ?store \<and> id' (?store ! 1) \<noteq> id' ?cur
      \<and> 0 < length ?store \<and> id' (?store ! 0) = id' ?cur
      \<and> extractedText (?store ! 0) = ''second'' \<and> reviewCount (?store ! 0) = 1"
    by (simp add: two_finished id)
  note existing = handleFinishLearning_frame [OF ne, where prev = ?store and now = 9000,
      THEN conjunct1, rule_format, OF f]
  from existing [THEN conjunct2, THEN conjunct1, rule_format, of 1] ids
  have 1: "handleFinishLearning ?store ?cur 9000 ! 1 = ?store ! 1"
    by simp
  from existing [THEN conjunct2, THEN conjunct1, rule_format, of 0] ids
  have 0: "extractedText (handleFinishLearning ?store ?cur 9000 ! 0) = ''second''
      \<and> reviewCount (handleFinishLearning ?store ?cur 9000 ! 0) = 2"
    by simp
  have "length ?one = 1"
    by (simp add: handleFinishLearning_def newSession_def toString_1000)
  with handleFinishLearning_frame [OF ne, where prev = ?one and now = 2000,
      THEN conjunct2, rule_format, OF one]
  have "length ?store = 2"
    by simp
  with ne f d 1 0 one show ?thesis by blast
qed

text \<open>
  Claim C10. Rendering the review schedule sorts the array of the stored sessions in
  place: the rows listed are the stored array itself, which afterwards is ascending in
  \<open>nextReviewAt\<close> and holds the same records. The order of insertion is lost: in the
  store of two finished sessions the newer one is first before the rendering and second
  after it, and the notification issued at \<open>86500000\<close>, when both are due, opens the
  newer session before the rendering and the older one after it.
\<close>

theorem renderReviewCenter_reorders_store:
  "fst (renderReviewCenter ss) = snd (renderReviewCenter ss)
   \<and> sorted (map nextReviewAt (snd (renderReviewCenter ss)))
   \<and> mset (snd (renderReviewCenter ss)) = mset ss
   \<and> map id' (handleFinishLearning (handleFinishLearning [] (newSession ''first'' 1000) 1000)
         (newSession ''second'' 2000) 2000) = [''2000'', ''1000'']
   \<and> map id' (snd (renderReviewCenter
         (handleFinishLearning (handleFinishLearning [] (newSession ''first'' 1000) 1000)
           (newSession ''second'' 2000) 2000))) = [''1000'', ''2000'']
   \<and> map_option (\<lambda>n. id' (firstSession n)) (fst (checkReviews granted
         (handleFinishLearning (handleFinishLearning [] (newSession ''first'' 1000) 1000)
           (newSession ''second'' 2000) 2000) 86500000)) = Some ''2000''
   \<and> map_option (\<lambda>n. id' (firstSession n)) (fst (checkReviews granted
         (snd (renderReviewCenter
           (handleFinishLearning (handleFinishLearning [] (newSession ''first'' 1000) 1000)
             (newSession ''second'' 2000) 2000))) 86500000)) = Some ''1000''"
proof (intro conjI)
  show "fst (renderReviewCenter ss) = snd (renderReviewCenter ss)"
    by (simp add: renderReviewCenter_def Let_def)
  show "sorted (map nextReviewAt (snd (renderReviewCenter ss)))"
    by (simp add: renderReviewCenter_eq)
  show "mset (snd (renderReviewCenter ss)) = mset ss"
    by (simp add: renderReviewCenter_eq)
qed (simp_all add: two_finished renderReviewCenter_eq checkReviews_def dueSessions_def
       isNewlyDue_def falsy_def Let_def)

text \<open>
  Claim C8, as amended. For every count \<open>current \<ge> 0\<close> and every goal \<open>goal > 0\<close>, the
  percentage shown is \<open>Math.min(Math.round((current / goal) * 100), 100)\<close> computed in
  doubles. It is at most one away from \<open>min(round(100 * current / goal), 100)\<close>; it is
  equal to it whenever \<open>100 * current / goal\<close> is not exactly halfway between two
  integers (for goals below \<open>2^43\<close>), and at an exact half it is that value or one less.
  With goal \<open>5\<close>, current \<open>3\<close> gives \<open>60\<close> and is not completed, current \<open>5\<close> gives \<open>100\<close>
  and is completed, current \<open>6\<close> stays at \<open>100\<close>. A goal \<open>\<le> 0\<close> has no case of its own:
  the completed flag is \<open>current \<ge> goal\<close>, and the percentage is \<open>100\<close> for goal \<open>0\<close> and a
  positive count, NaN for goal \<open>0\<close> and count \<open>0\<close>, and at most \<open>0\<close> for a negative goal.
\<close>

theorem ProgressBar_percentage:
  "(0 \<le> current \<and> 0 < goal \<longrightarrow>
      (\<exists>p. percentage (ProgressBar current goal) = Fin (of_int p)
           \<and> \<bar>p - percent_spec current goal\<bar> \<le> 1
           \<and> (goal < 2 ^ 43 \<and> \<not> 2 * goal dvd 200 * current + goal \<longrightarrow>
                  p = percent_spec current goal)
           \<and> (2 * goal dvd 200 * current + goal \<longrightarrow>
                  p = percent_spec current goal \<or> p = percent_spec current goal - 1)))
   \<and> isCompleted (ProgressBar current goal) = (goal \<le> current)
   \<and> ProgressBar 3 5 = \<lparr>percentage = Fin 60, isCompleted = False\<rparr>
   \<and> ProgressBar 5 5 = \<lparr>percentage = Fin 100, isCompleted = True\<rparr>
   \<and> ProgressBar 6 5 = \<lparr>percentage = Fin 100, isCompleted = True\<rparr>
   \<and> (0 < current \<longrightarrow> percentage (ProgressBar current 0) = Fin 100)
   \<and> percentage (ProgressBar 0 0) = NaN
   \<and> (0 \<le> current \<and> goal < 0 \<longrightarrow>
        (\<exists>p. percentage (ProgressBar current goal) = Fin (of_int p) \<and> p \<le> 0))"
proof (intro conjI impI)
  assume a: "0 \<le> current \<and> 0 < goal"
  let ?p = "min \<lfloor>fl (fl (of_int current / of_int goal) * 100) + 1 / 2\<rfloor> 100"
  from a have "percentage (ProgressBar current goal) = Fin (of_int ?p)"
    by (simp add: percentage_finite)
  moreover from a have "\<bar>?p - percent_spec current goal\<bar> \<le> 1"
    by (simp add: percentage_vs_spec(1))
  moreover from a have "goal < 2 ^ 43 \<and> \<not> 2 * goal dvd 200 * current + goal \<longrightarrow>
      ?p = percent_spec current goal"
    using percentage_vs_spec(2) [of current goal] by blast
  moreover from a have "2 * goal dvd 200 * current + goal \<longrightarrow>
      ?p = percent_spec current goal \<or> ?p = percent_spec current goal - 1"
    using percentage_vs_spec(3) [of current goal] by blast
  ultimately show "\<exists>p. percentage (ProgressBar current goal) = Fin (of_int p)
           \<and> \<bar>p - percent_spec current goal\<bar> \<le> 1
           \<and> (goal < 2 ^ 43 \<and> \<not> 2 * goal dvd 200 * current + goal \<longrightarrow>
                  p = percent_spec current goal)
           \<and> (2 * goal dvd 200 * current + goal \<longrightarrow>
                  p = percent_spec current goal \<or> p = percent_spec current goal - 1)"
    by blast
next
  show "isCompleted (ProgressBar current goal) = (goal \<le> current)"
    by (simp add: ProgressBar_def)
  show "ProgressBar 3 5 = \<lparr>percentage = Fin 60, isCompleted = False\<rparr>"
    by code_simp
  show "ProgressBar 5 5 = \<lparr>percentage = Fin 100, isCompleted = True\<rparr>"
    by code_simp
  show "ProgressBar 6 5 = \<lparr>percentage = Fin 100, isCompleted = True\<rparr>"
    by code_simp
  show "percentage (ProgressBar current 0) = Fin 100" if "0 < current"
    using that by (simp add: ProgressBar_def divide_num_def)
  show "percentage (ProgressBar 0 0) = NaN"
    by (simp add: ProgressBar_def divide_num_def)
next
  assume a: "0 \<le> current \<and> goal < 0"
  let ?x = "fl (fl (of_int current / of_int goal) * 100)"
  from a have "(of_int current / of_int goal :: rat) \<le> 0"
    by (simp add: divide_nonneg_neg)
  then have "fl (of_int current / of_int goal) * 100 \<le> 0"
    using fl_nonpos by (simp add: mult_le_0_iff)
  then have "?x \<le> 0"
    by (rule fl_nonpos)
  then have "?x + 1 / 2 < of_int 1"
    by simp
  then have "\<lfloor>?x + 1 / 2\<rfloor> < 1"
    by (simp only: floor_less_iff)
  then have "min \<lfloor>?x + 1 / 2\<rfloor> 100 \<le> 0"
    by simp
  moreover from a have "percentage (ProgressBar current goal) = Fin (of_int (min \<lfloor>?x + 1 / 2\<rfloor> 100))"
    by (simp add: percentage_finite)
  ultimately show "\<exists>p. percentage (ProgressBar current goal) = Fin (of_int p) \<and> p \<le> 0"
    by blast
qed

text \<open>
  Goal \<open>5\<close> with count \<open>3\<close>, where \<open>100 * 3 / 5\<close> is not a half; goal \<open>40\<close> with count
  \<open>23\<close>, where \<open>100 * 23 / 40 = 57.5\<close>; goal \<open>0\<close> with count \<open>3\<close>; goal \<open>-5\<close> with count
  \<open>3\<close>.
\<close>

theorem ProgressBar_percentage_witness:
  "(0 :: int) \<le> 3 \<and> (0 :: int) < 5 \<and> (5 :: int) < 2 ^ 43
   \<and> \<not> 2 * 5 dvd 200 * 3 + (5 :: int)
   \<and> percentage (ProgressBar 3 5) = Fin (of_int (percent_spec 3 5))
   \<and> 2 * 40 dvd 200 * 23 + (40 :: int)
   \<and> percentage (ProgressBar 23 40) = Fin (of_int (percent_spec 23 40 - 1))
   \<and> percentage (ProgressBar 3 0) = Fin 100
   \<and> (\<exists>p. percentage (ProgressBar 3 (- 5)) = Fin (of_int p) \<and> p \<le> 0)"
proof -
  have h: "(0 :: int) \<le> 3 \<and> (0 :: int) < 5" "(5 :: int) < 2 ^ 43 \<and> \<not> 2 * 5 dvd 200 * 3 + (5 :: int)"
    by simp_all
  from ProgressBar_percentage [of 3 5, THEN conjunct1, rule_format, OF h(1)]
  obtain p where "percentage (ProgressBar 3 5) = Fin (of_int p)"
    and "(5 :: int) < 2 ^ 43 \<and> \<not> 2 * 5 dvd 200 * 3 + (5 :: int) \<longrightarrow> p = percent_spec 3 5"
    by blast
  with h(2) have 1: "percentage (ProgressBar 3 5) = Fin (of_int (percent_spec 3 5))"
    by blast
  have 2: "2 * 40 dvd 200 * 23 + (40 :: int)"
    by simp
  have "percentage (ProgressBar 23 40) = Fin 57" "percent_spec 23 40 = 58"
    by code_simp+
  then have 3: "percentage (ProgressBar 23 40) = Fin (of_int (percent_spec 23 40 - 1))"
    by simp
  have 4: "percentage (ProgressBar 3 0) = Fin 100"
    using ProgressBar_percentage [of 3 0, THEN conjunct2, THEN conjunct2, THEN conjunct2,
        THEN conjunct2, THEN conjunct2, THEN conjunct1]
    by simp
  have 5: "\<exists>p. percentage (ProgressBar 3 (- 5)) = Fin (of_int p) \<and> p \<le> 0"
    using ProgressBar_percentage [of 3 "- 5", THEN conjunct2, THEN conjunct2, THEN conjunct2,
        THEN conjunct2, THEN conjunct2, THEN conjunct2, THEN conjunct2]
    by simp
  from h 1 2 3 4 5 show ?thesis by blast
qed

text \<open>
  Claim C8 as stated fails for a goal \<open>\<le> 0\<close>: goal \<open>0\<close> with count \<open>0\<close> gives NaN and goal
  \<open>-5\<close> with count \<open>3\<close> gives \<open>-60\<close>, not \<open>100\<close>. It also fails at goal \<open>40\<close> with count
  \<open>23\<close>: the double \<open>(23 / 40) * 100\<close> is just below \<open>57.5\<close> and is rounded to \<open>57\<close>,
  while \<open>min(round(100 * 23 / 40), 100)\<close> is \<open>58\<close>.
\<close>

theorem ProgressBar_not_the_formula:
  "percentage (ProgressBar 0 0) = NaN
   \<and> percentage (ProgressBar 3 (- 5)) = Fin (- 60)
   \<and> percentage (ProgressBar 23 40) = Fin 57
   \<and> percent_spec 23 40 = 58"
  by code_simp

end
